theory Spec2Isabelle
  imports Main "HOL-Library.Word" "HOL-Library.Signed_Division"
begin

section \<open>Values, runtime errors and results\<close>

text \<open>
  The repository holds C fixture programs; the engine that executes them is described by
  the specification only. The fixtures' functions are embedded one by one below, over the
  engine's primitive operations.

  A value is a 32-bit signed integer (the C \<open>int\<close> of the fixtures; section 3 of the
  specification: "a 32-bit (or platform-int-width) signed integer"): \<open>+\<close>, \<open>-\<close> and
  \<open>*\<close> are the operations of \<open>32 word\<close> and wrap around, \<open>sint\<close> reads a value as a
  signed integer, and \<open>\<le>s\<close>, \<open><s\<close> are the signed comparisons. The specification names
  no overflow error, so arithmetic other than division never fails: a result that does not
  fit is reduced to 32 bits in two's complement.
\<close>

type_synonym val = "32 word"

datatype runtime_error =
    DivisionByZero
  | InvalidPointerOp
  | OutOfBounds
  | NoReturnFromMain
  | MissingReturnValue
  | StackOverflow
  | StepLimitExceeded

type_synonym 'a res = "runtime_error + 'a"

text \<open>Sequencing of evaluation steps: the first error ends the evaluation.\<close>

definition bind_res :: "'a res \<Rightarrow> ('a \<Rightarrow> 'b res) \<Rightarrow> 'b res" where
  "bind_res m f = (case m of Inl e \<Rightarrow> Inl e | Inr x \<Rightarrow> f x)"

lemma bind_res_cong [fundef_cong]:
  "m = m' \<Longrightarrow> (\<And>x. m' = Inr x \<Longrightarrow> f x = f' x) \<Longrightarrow> bind_res m f = bind_res m' f'"
  by (simp add: bind_res_def split: sum.splits)

lemma bind_res_simps [simp]:
  "bind_res (Inl e) f = Inl e"
  "bind_res (Inr x) f = f x"
  by (simp_all add: bind_res_def)

section \<open>Primitive operations of the engine\<close>

text \<open>
  Modelled from the spec: the evaluator's division. The engine's code is not among the
  sources; section 4.4 gives "standard C truncating integer division" and "division or
  modulo by zero \<Rightarrow> RuntimeError::DivisionByZero". On \<open>int\<close>, \<open>sdiv\<close> is the quotient
  rounded towards zero; the result is stored back into 32 bits. The specification does not
  say what the least integer divided by \<open>-1\<close> gives (the quotient \<open>2^31\<close> is no 32-bit
  value); no fixture divides by \<open>-1\<close>, and no statement in this theory speaks of the
  engine's result at that pair.
\<close>

definition c_div :: "val \<Rightarrow> val \<Rightarrow> val res" where
  "c_div a b =
     (if b = 0 then Inl DivisionByZero else Inr (word_of_int (sint a sdiv sint b)))"

text \<open>
  Modelled from the spec: the evaluator's remainder, "\<open>%\<close> taking the sign of the
  dividend", with the same error on a zero divisor. On \<open>int\<close>, \<open>smod\<close> is the remainder
  of the division rounded towards zero. As for the quotient, no statement in this theory
  speaks of the engine's result for the least integer and \<open>-1\<close>.
\<close>

definition c_mod :: "val \<Rightarrow> val \<Rightarrow> val res" where
  "c_mod a b =
     (if b = 0 then Inl DivisionByZero else Inr (word_of_int (sint a smod sint b)))"

text \<open>
  Modelled from the spec: the addressable store and pointers (section 3). The store is
  "a flat, growable sequence of integer cells"; a pointer is "an index into this store
  plus a bound descriptor (base index, element count)". The index may leave the bounds
  (one past the end, for instance): only an access checks it.
\<close>

type_synonym store = "val list"

record ptr =
  pbase :: nat
  pcount :: nat
  paddr :: int

text \<open>
  Modelled from the spec: a local array declaration \<open>int a[N]\<close>. The array "owns a
  contiguous run of cells"; they are appended to the store, and the array's name denotes
  the pointer to its first cell. The specification leaves the initial contents open; the
  cells start at 0 here, and every fixture writes each cell before reading it.
\<close>

definition alloc :: "store \<Rightarrow> nat \<Rightarrow> store \<times> ptr" where
  "alloc s n = (s @ replicate n 0, \<lparr>pbase = length s, pcount = n, paddr = int (length s)\<rparr>)"

text \<open>
  Modelled from the spec: pointer arithmetic, "\<open>p + k\<close> advances the index by \<open>k\<close>
  element-widths within the same addressable region". It raises no error.
\<close>

definition ptr_add :: "ptr \<Rightarrow> val \<Rightarrow> ptr" where
  "ptr_add p k = p\<lparr>paddr := paddr p + sint k\<rparr>"

text \<open>
  Modelled from the spec: the bounds check of an access, "dereferencing or indexing
  outside the \<open>[base, base+count)\<close> bound of the originating array is
  RuntimeError::OutOfBounds". A cell that the store does not hold is out of bounds too.
\<close>

definition in_bounds :: "store \<Rightarrow> ptr \<Rightarrow> bool" where
  "in_bounds s p \<longleftrightarrow>
     int (pbase p) \<le> paddr p \<and> paddr p < int (pbase p) + int (pcount p) \<and>
     paddr p < int (length s)"

definition deref :: "store \<Rightarrow> ptr \<Rightarrow> val res" where
  "deref s p = (if in_bounds s p then Inr (s ! nat (paddr p)) else Inl OutOfBounds)"

text \<open>Modelled from the spec: \<open>a[i]\<close> as an expression; C's \<open>*(a + i)\<close>.\<close>

definition index_read :: "store \<Rightarrow> ptr \<Rightarrow> val \<Rightarrow> val res" where
  "index_read s p i = deref s (ptr_add p i)"

text \<open>
  Modelled from the spec: the assignment \<open>a[i] = v\<close>, "a single indivisible store" into
  the array element, under the same bounds check.
\<close>

definition index_write :: "store \<Rightarrow> ptr \<Rightarrow> val \<Rightarrow> val \<Rightarrow> store res" where
  "index_write s p i v =
     (let q = ptr_add p i
      in if in_bounds s q then Inr (s[nat (paddr q) := v]) else Inl OutOfBounds)"

text \<open>
  Modelled from the spec: the comparison \<open>p < q\<close> of two pointers; "comparing or
  subtracting pointers from different regions is RuntimeError::InvalidPointerOp". Two
  pointers are of the same region when their bound descriptors agree.
\<close>

definition ptr_less :: "ptr \<Rightarrow> ptr \<Rightarrow> bool res" where
  "ptr_less p q =
     (if pbase p = pbase q \<and> pcount p = pcount q then Inr (paddr p < paddr q)
      else Inl InvalidPointerOp)"

text \<open>The only error of an access is \<open>OutOfBounds\<close>.\<close>

lemma index_read_error: "index_read s p i = Inl e \<Longrightarrow> e = OutOfBounds"
  by (simp add: index_read_def deref_def split: if_splits)

subsection \<open>Signed readings that do not overflow\<close>

lemma sint_of_int_val:
  "- (2 ^ 31) \<le> k \<Longrightarrow> k < 2 ^ 31 \<Longrightarrow> sint (word_of_int k :: val) = k"
  by (simp add: sint_sbintrunc' signed_take_bit_int_eq_self)

lemma sint_val_range: "- (2 ^ 31) \<le> sint (x::val) \<and> sint x < 2 ^ 31"
  using sint_ge [of x] sint_lt [of x] by simp

lemma sint_succ: "(i::val) <s n \<Longrightarrow> sint (i + 1) = sint i + 1"
proof -
  assume "i <s n"
  then have "sint i < sint n"
    by (simp add: word_sless_alt)
  with sint_val_range [of n] sint_val_range [of i] show ?thesis
    by (simp add: sint_word_ariths signed_take_bit_int_eq_self)
qed

lemma sint_add_in_range:
  "- (2 ^ 31) \<le> sint (a::val) + sint b \<Longrightarrow> sint a + sint b < 2 ^ 31 \<Longrightarrow>
   sint (a + b) = sint a + sint b"
  by (simp add: sint_word_ariths signed_take_bit_int_eq_self)

lemma sint_pred: "- (2 ^ 31) < sint (a::val) \<Longrightarrow> sint (a - 1) = sint a - 1"
  using sint_val_range [of a]
  by (simp add: sint_word_ariths signed_take_bit_int_eq_self)

lemma sint_succ_below_max: "sint (a::val) < 2 ^ 31 - 1 \<Longrightarrow> sint (a + 1) = sint a + 1"
  using sint_val_range [of a]
  by (simp add: sint_word_ariths signed_take_bit_int_eq_self)

lemma sint_sdiv_10: "sint (word_of_int (sint (n::val) sdiv 10) :: val) = sint n sdiv 10"
proof -
  from sint_val_range [of n]
  have "- (2 ^ 31) \<le> sint n sdiv 10 \<and> sint n sdiv 10 < 2 ^ 31"
    by (auto simp: signed_divide_int_def sgn_if abs_if)
  then show ?thesis
    by (simp add: sint_of_int_val)
qed

lemma reverse_measure:
  "(n::val) \<noteq> 0 \<Longrightarrow> \<bar>sint (word_of_int (sint n sdiv 10) :: val)\<bar> < \<bar>sint n\<bar>"
proof -
  assume "n \<noteq> 0"
  then have "sint n \<noteq> 0"
    by (simp add: signed_eq_0_iff)
  then show ?thesis
    unfolding sint_sdiv_10 by (auto simp: signed_divide_int_def sgn_if abs_if)
qed

section \<open>The fixture programs\<close>

text \<open>
  Every function takes the number \<open>d\<close> of activation records the host stack still
  admits, its own included: a call at \<open>d = 0\<close> is the specification's
  \<open>RuntimeError::StackOverflow\<close> (section 5), and a callee runs with one record less.
  Running a program is calling its \<open>main\<close> with no arguments on the empty store; the
  result is \<open>Inr\<close> the value \<open>main\<close> returns, or \<open>Inl\<close> the error that ended the run.
\<close>

subsection \<open>program36.c\<close>

text \<open>
  \<^verbatim>\<open>
  int power(int base, int exp) {
      if (exp == 0) {
          return 1;
      }
      return base * power(base, exp - 1);
  }

  int main(void) {
      return power(2, 4);
  }
  \<close>
  \<open>power\<close> is the name of HOL's exponentiation; the function is \<open>power_c\<close> here.
\<close>

fun power_c :: "nat \<Rightarrow> val \<Rightarrow> val \<Rightarrow> val res" where
  "power_c 0 base exp = Inl StackOverflow"
| "power_c (Suc d) base exp =
     (if exp = 0 then Inr 1
      else bind_res (power_c d base (exp - 1)) (\<lambda>v. Inr (base * v)))"

fun main36 :: "nat \<Rightarrow> val res" where
  "main36 0 = Inl StackOverflow"
| "main36 (Suc d) = power_c d 2 4"

subsection \<open>program61.c\<close>

text \<open>
  \<^verbatim>\<open>
  int linear_search(int arr[], int n, int key) {
      int i;
      for (i = 0; i < n; i = i + 1) {
          if (arr[i] == key) {
              return i;
          }
      }
      return -1;
  }

  int main(void) {
      int arr[5];
      arr[0] = 10;
      arr[1] = 20;
      arr[2] = 30;
      arr[3] = 40;
      arr[4] = 50;
      return linear_search(arr, 5, 30);
  }
  \<close>
  The \<open>for\<close> loop is the function \<open>linear_search_loop\<close> of the loop variable
  \<open>i\<close>; it ends because \<open>i\<close> climbs towards \<open>n\<close>.
\<close>

function linear_search_loop :: "store \<Rightarrow> ptr \<Rightarrow> val \<Rightarrow> val \<Rightarrow> val \<Rightarrow> val res" where
  "linear_search_loop s arr n key i =
     (if i <s n
      then bind_res (index_read s arr i) (\<lambda>v.
             if v = key then Inr i else linear_search_loop s arr n key (i + 1))
      else Inr (- 1))"
  by pat_completeness auto
termination
  by (relation "measure (\<lambda>(s, arr, n, key, i). nat (sint n - sint i))")
     (auto simp: sint_succ word_sless_alt)

fun linear_search :: "nat \<Rightarrow> store \<Rightarrow> ptr \<Rightarrow> val \<Rightarrow> val \<Rightarrow> val res" where
  "linear_search 0 s arr n key = Inl StackOverflow"
| "linear_search (Suc d) s arr n key = linear_search_loop s arr n key 0"

fun main61 :: "nat \<Rightarrow> val res" where
  "main61 0 = Inl StackOverflow"
| "main61 (Suc d) =
     (case alloc [] 5 of (s, arr) \<Rightarrow>
        bind_res (index_write s arr 0 10) (\<lambda>s.
        bind_res (index_write s arr 1 20) (\<lambda>s.
        bind_res (index_write s arr 2 30) (\<lambda>s.
        bind_res (index_write s arr 3 40) (\<lambda>s.
        bind_res (index_write s arr 4 50) (\<lambda>s.
        linear_search d s arr 5 30))))))"

subsection \<open>program62.c\<close>

text \<open>
  \<^verbatim>\<open>
  int binary_search_recursive(int arr[], int left, int right, int key) {
      int mid;
      if (left > right) {
          return -1;
      }
      mid = (left + right) / 2;
      if (arr[mid] == key) {
          return mid;
      }
      if (arr[mid] > key) {
          return binary_search_recursive(arr, left, mid - 1, key);
      }
      return binary_search_recursive(arr, mid + 1, right, key);
  }

  int main() {
      int arr[5];
      arr[0] = 1;
      arr[1] = 3;
      arr[2] = 5;
      arr[3] = 7;
      arr[4] = 9;
      return binary_search_recursive(arr, 0, 4, 5);
  }
  \<close>
  The two \<open>if\<close> statements read \<open>arr[mid]\<close> one after the other, as the source does.
\<close>

fun binary_search_recursive :: "nat \<Rightarrow> store \<Rightarrow> ptr \<Rightarrow> val \<Rightarrow> val \<Rightarrow> val \<Rightarrow> val res" where
  "binary_search_recursive 0 s arr left right key = Inl StackOverflow"
| "binary_search_recursive (Suc d) s arr left right key =
     (if right <s left then Inr (- 1)
      else bind_res (c_div (left + right) 2) (\<lambda>mid.
           bind_res (index_read s arr mid) (\<lambda>v.
             if v = key then Inr mid
             else bind_res (index_read s arr mid) (\<lambda>w.
               if key <s w then binary_search_recursive d s arr left (mid - 1) key
               else binary_search_recursive d s arr (mid + 1) right key))))"

fun main62 :: "nat \<Rightarrow> val res" where
  "main62 0 = Inl StackOverflow"
| "main62 (Suc d) =
     (case alloc [] 5 of (s, arr) \<Rightarrow>
        bind_res (index_write s arr 0 1) (\<lambda>s.
        bind_res (index_write s arr 1 3) (\<lambda>s.
        bind_res (index_write s arr 2 5) (\<lambda>s.
        bind_res (index_write s arr 3 7) (\<lambda>s.
        bind_res (index_write s arr 4 9) (\<lambda>s.
        binary_search_recursive d s arr 0 4 5))))))"

text \<open>
  A bound on the number of nested calls of \<open>binary_search_recursive\<close> from the ends
  \<open>L\<close> and \<open>R\<close> (read as integers), for an array whose in-bounds indices are not
  negative. From \<open>0 \<le> L\<close> on, the interval shrinks at every call. From \<open>L < 0\<close>, a
  midpoint that is an index needs \<open>L + R \<ge> -1\<close>, or a sum below the least integer,
  which wraps around; after such a sum at most two more calls follow.
\<close>

definition bsr_depth :: "int \<Rightarrow> int \<Rightarrow> nat" where
  "bsr_depth L R =
     (if R < L then 0
      else if 0 \<le> L then nat (R - L + 1)
      else if L + R < - (2 ^ 31) then (if R = - 1 then 2 else 3)
      else if L + R < - 1 then 1
      else nat (R + 5))"

subsection \<open>program63.c\<close>

text \<open>
  \<^verbatim>\<open>
  int sum_recursive(int arr[], int n) {
      if (n <= 0) {
          return 0;
      }
      return arr[n - 1] + sum_recursive(arr, n - 1);
  }

  int main(void) {
      int arr[4];
      arr[0] = 1;
      arr[1] = 2;
      arr[2] = 3;
      arr[3] = 4;
      return sum_recursive(arr, 4);
  }
  \<close>
  The left operand \<open>arr[n - 1]\<close> is evaluated before the recursive call.
\<close>

fun sum_recursive :: "nat \<Rightarrow> store \<Rightarrow> ptr \<Rightarrow> val \<Rightarrow> val res" where
  "sum_recursive 0 s arr n = Inl StackOverflow"
| "sum_recursive (Suc d) s arr n =
     (if n \<le>s 0 then Inr 0
      else bind_res (index_read s arr (n - 1)) (\<lambda>a.
           bind_res (sum_recursive d s arr (n - 1)) (\<lambda>b. Inr (a + b))))"

fun main63 :: "nat \<Rightarrow> val res" where
  "main63 0 = Inl StackOverflow"
| "main63 (Suc d) =
     (case alloc [] 4 of (s, arr) \<Rightarrow>
        bind_res (index_write s arr 0 1) (\<lambda>s.
        bind_res (index_write s arr 1 2) (\<lambda>s.
        bind_res (index_write s arr 2 3) (\<lambda>s.
        bind_res (index_write s arr 3 4) (\<lambda>s.
        sum_recursive d s arr 4)))))"

text \<open>
  The iterative equivalent of \<open>sum_recursive\<close>. It is not a function of the fixtures: it
  follows the words of the specification ("must match the iterative equivalent's result"),
  as the left-to-right summation of \<open>arr[0..n-1]\<close> that a C loop would run:
  \<^verbatim>\<open>
  total = 0;
  for (i = 0; i < n; i = i + 1) { total = total + arr[i]; }
  return total;
  \<close>
\<close>

function sum_iterative_loop :: "store \<Rightarrow> ptr \<Rightarrow> val \<Rightarrow> val \<Rightarrow> val \<Rightarrow> val res" where
  "sum_iterative_loop s arr n i tot =
     (if i <s n
      then bind_res (index_read s arr i) (\<lambda>v. sum_iterative_loop s arr n (i + 1) (tot + v))
      else Inr tot)"
  by pat_completeness auto
termination
  by (relation "measure (\<lambda>(s, arr, n, i, tot). nat (sint n - sint i))")
     (auto simp: sint_succ word_sless_alt)

declare sum_iterative_loop.simps [simp del]

definition sum_iterative :: "store \<Rightarrow> ptr \<Rightarrow> val \<Rightarrow> val res" where
  "sum_iterative s arr n = sum_iterative_loop s arr n 0 0"

subsection \<open>program67.c\<close>

text \<open>
  \<^verbatim>\<open>
  int reverse_number(int n) {
      int reversed;
      reversed = 0;
      while (n != 0) {
          reversed = reversed * 10 + n % 10;
          n = n / 10;
      }
      return reversed;
  }

  int main() {
      return reverse_number(123);
  }
  \<close>
  The \<open>while\<close> loop is the function \<open>reverse_number_loop\<close> of the two variables it
  assigns; it ends because \<open>n / 10\<close> is smaller than \<open>n\<close> in absolute value.
\<close>

function reverse_number_loop :: "val \<Rightarrow> val \<Rightarrow> val res" where
  "reverse_number_loop n reversed =
     (if n \<noteq> 0
      then bind_res (c_mod n 10) (\<lambda>m.
           bind_res (c_div n 10) (\<lambda>q.
             reverse_number_loop q (reversed * 10 + m)))
      else Inr reversed)"
  by pat_completeness auto
termination
proof (relation "measure (\<lambda>(n, reversed). nat \<bar>sint n\<bar>)")
  show "wf (measure (\<lambda>(n::val, reversed::val). nat \<bar>sint n\<bar>))"
    by simp
next
  fix n reversed m q :: val
  assume "n \<noteq> 0" and "c_div n 10 = Inr q"
  then have "\<bar>sint q\<bar> < \<bar>sint n\<bar>"
    using reverse_measure [of n] by (auto simp: c_div_def)
  then show "((q, reversed * 10 + m), n, reversed) \<in> measure (\<lambda>(n, reversed). nat \<bar>sint n\<bar>)"
    by simp
qed

fun reverse_number :: "nat \<Rightarrow> val \<Rightarrow> val res" where
  "reverse_number 0 n = Inl StackOverflow"
| "reverse_number (Suc d) n = reverse_number_loop n 0"

fun main67 :: "nat \<Rightarrow> val res" where
  "main67 0 = Inl StackOverflow"
| "main67 (Suc d) = reverse_number d 123"

subsection \<open>program68.c\<close>

text \<open>
  \<^verbatim>\<open>
  int is_prime(int n) {
      int i;
      if (n <= 1) {
          return 0;
      }
      for (i = 2; i < n; i = i + 1) {
          if (n % i == 0) {
              return 0;
          }
      }
      return 1;
  }

  int main(void) {
      return is_prime(17);
  }
  \<close>
\<close>

function is_prime_loop :: "val \<Rightarrow> val \<Rightarrow> val res" where
  "is_prime_loop n i =
     (if i <s n
      then bind_res (c_mod n i) (\<lambda>m.
             if m = 0 then Inr 0 else is_prime_loop n (i + 1))
      else Inr 1)"
  by pat_completeness auto
termination
  by (relation "measure (\<lambda>(n, i). nat (sint n - sint i))")
     (auto simp: sint_succ word_sless_alt)

fun is_prime :: "nat \<Rightarrow> val \<Rightarrow> val res" where
  "is_prime 0 n = Inl StackOverflow"
| "is_prime (Suc d) n = (if n \<le>s 1 then Inr 0 else is_prime_loop n 2)"

fun main68 :: "nat \<Rightarrow> val res" where
  "main68 0 = Inl StackOverflow"
| "main68 (Suc d) = is_prime d 17"

subsection \<open>program88.c\<close>

text \<open>
  \<^verbatim>\<open>
  int sum(int *start, int *end) {
      int total;
      total = 0;
      while (start < end) {
          total = total + *start;
          start = start + 1;
      }
      return total;
  }

  int main(void) {
      int numbers[3];
      numbers[0] = 2;
      numbers[1] = 4;
      numbers[2] = 6;
      return sum(numbers, numbers + 3);
  }
  \<close>
  \<open>sum\<close> is the name of HOL's big sum and \<open>total\<close> that of a property of relations:
  the function is \<open>sum_c\<close> and its accumulator \<open>tot\<close> here. The loop ends because
  \<open>start\<close> moves towards \<open>end\<close>.
\<close>

function sum_loop :: "store \<Rightarrow> ptr \<Rightarrow> ptr \<Rightarrow> val \<Rightarrow> val res" where
  "sum_loop s end start tot =
     bind_res (ptr_less start end) (\<lambda>c.
       if c
       then bind_res (deref s start) (\<lambda>v. sum_loop s end (ptr_add start 1) (tot + v))
       else Inr tot)"
  by pat_completeness auto
termination
  by (relation "measure (\<lambda>(s, end, start, tot). nat (paddr end - paddr start))")
     (auto simp: ptr_less_def ptr_add_def split: if_splits)

fun sum_c :: "nat \<Rightarrow> store \<Rightarrow> ptr \<Rightarrow> ptr \<Rightarrow> val res" where
  "sum_c 0 s start end = Inl StackOverflow"
| "sum_c (Suc d) s start end = sum_loop s end start 0"

fun main88 :: "nat \<Rightarrow> val res" where
  "main88 0 = Inl StackOverflow"
| "main88 (Suc d) =
     (case alloc [] 3 of (s, numbers) \<Rightarrow>
        bind_res (index_write s numbers 0 2) (\<lambda>s.
        bind_res (index_write s numbers 1 4) (\<lambda>s.
        bind_res (index_write s numbers 2 6) (\<lambda>s.
        sum_c d s numbers (ptr_add numbers 3)))))"

section \<open>The results of the fixtures\<close>

text \<open>
  Every function above is a total function of HOL: the recursive C functions recurse on the
  stack bound \<open>d\<close>, and each loop comes with its termination proof. A run that ends with
  a value is \<open>Inr\<close> that value; a stack too small for the run shows as
  \<open>Inl StackOverflow\<close>. So "the program terminates and returns \<open>v\<close>" reads: for every
  stack that admits the records the run needs, the result is \<open>Inr v\<close>.
\<close>

lemma depth_2: "2 \<le> d \<Longrightarrow> \<exists>k. d = Suc (Suc k)"
  by (metis add_2_eq_Suc le_Suc_ex)

lemma depth_6: "6 \<le> d \<Longrightarrow> \<exists>k. d = Suc (Suc (Suc (Suc (Suc (Suc k)))))"
proof -
  assume "6 \<le> d"
  then obtain k where "d = 6 + k"
    using le_Suc_ex by blast
  then have "d = Suc (Suc (Suc (Suc (Suc (Suc k)))))"
    by simp
  then show ?thesis ..
qed

lemmas engine_defs =
  alloc_def index_write_def index_read_def deref_def in_bounds_def ptr_add_def ptr_less_def
  c_div_def c_mod_def signed_divide_int_def signed_modulo_int_def word_sle_eq word_sless_alt

text \<open>
  C1. Each of the three arithmetic fixtures, run from \<open>main\<close> with no arguments, ends with
  the expected integer: program36 returns 16 (2 to the power 4; the run is six records
  deep: \<open>main\<close> and five of \<open>power\<close>), program68 returns 1 (17 is prime) and program67
  returns 321 (123 reversed); the last two runs are two records deep.
\<close>

theorem arithmetic_fixtures_return:
  "(6 \<le> d \<longrightarrow> main36 d = Inr 16) \<and>
   (2 \<le> d \<longrightarrow> main68 d = Inr 1) \<and>
   (2 \<le> d \<longrightarrow> main67 d = Inr 321)"
proof (intro conjI impI)
  assume "6 \<le> d"
  then obtain k where "d = Suc (Suc (Suc (Suc (Suc (Suc k)))))"
    using depth_6 by blast
  then show "main36 d = Inr 16"
    by simp
next
  assume "2 \<le> d"
  then obtain k where "d = Suc (Suc k)"
    using depth_2 by blast
  then show "main68 d = Inr 1"
    by (simp add: engine_defs)
next
  assume "2 \<le> d"
  then obtain k where "d = Suc (Suc k)"
    using depth_2 by blast
  then show "main67 d = Inr 321"
    by (simp add: engine_defs)
qed

theorem arithmetic_fixtures_return_witness:
  "main36 6 = Inr 16 \<and> main68 2 = Inr 1 \<and> main67 2 = Inr 321"
  using arithmetic_fixtures_return [of 6] arithmetic_fixtures_return [of 2] by simp

text \<open>
  C2. The linear-search fixture ends with 2: \<open>main\<close> fills its array with
  10, 20, 30, 40, 50 and returns \<open>linear_search(arr, 5, 30)\<close>, the index of 30.
\<close>

theorem linear_search_fixture_returns:
  "2 \<le> d \<Longrightarrow> main61 d = Inr 2"
proof -
  assume "2 \<le> d"
  then obtain k where "d = Suc (Suc k)"
    using depth_2 by blast
  then show ?thesis
    by (simp add: engine_defs)
qed

theorem linear_search_fixture_returns_witness:
  "main61 2 = Inr 2"
  using linear_search_fixture_returns [of 2] by simp

text \<open>
  C3. The recursive binary-search fixture ends with 2: \<open>main\<close> fills its array with
  1, 3, 5, 7, 9 and returns \<open>binary_search_recursive(arr, 0, 4, 5)\<close>; the first midpoint
  is 2 and \<open>arr[2]\<close> is the key.
\<close>

theorem binary_search_fixture_returns:
  "2 \<le> d \<Longrightarrow> main62 d = Inr 2"
proof -
  assume "2 \<le> d"
  then obtain k where "d = Suc (Suc k)"
    using depth_2 by blast
  then show ?thesis
    by (simp add: engine_defs)
qed

theorem binary_search_fixture_returns_witness:
  "main62 2 = Inr 2"
  using binary_search_fixture_returns [of 2] by simp

text \<open>
  C4. The pointer-sum fixture ends with 12: \<open>main\<close> fills \<open>numbers\<close> with 2, 4, 6 and
  returns \<open>sum(numbers, numbers + 3)\<close>. The second argument points one past the end of the
  array; the loop compares it with \<open>start\<close> and never reads through it, and the run
  raises no error.
\<close>

theorem pointer_sum_fixture_returns:
  "2 \<le> d \<Longrightarrow> main88 d = Inr 12"
proof -
  assume "2 \<le> d"
  then obtain k where "d = Suc (Suc k)"
    using depth_2 by blast
  then show ?thesis
    by (simp add: engine_defs)
qed

theorem pointer_sum_fixture_returns_witness:
  "main88 2 = Inr 12"
  using pointer_sum_fixture_returns [of 2] by simp

section \<open>The recursive sum and its iterative equivalent\<close>

text \<open>
  Both summations are compared with \<open>sum_cells\<close>, the sum of the first \<open>k\<close> cells of
  the array read from the last one down, which fails as soon as one of the reads does.
\<close>

primrec sum_cells :: "store \<Rightarrow> ptr \<Rightarrow> nat \<Rightarrow> val res" where
  "sum_cells s arr 0 = Inr 0"
| "sum_cells s arr (Suc k) =
     bind_res (index_read s arr (of_nat k)) (\<lambda>a.
     bind_res (sum_cells s arr k) (\<lambda>b. Inr (a + b)))"

lemma sint_of_nat_val: "k < 2 ^ 31 \<Longrightarrow> sint (of_nat k :: val) = int k"
proof -
  assume "k < 2 ^ 31"
  then have "int k < 2 ^ 31"
    by (metis of_nat_less_iff of_nat_numeral of_nat_power)
  then have "sint (word_of_int (int k) :: val) = int k"
    by (intro sint_of_int_val) simp_all
  then show ?thesis by simp
qed

lemma nat_sint_bound: "nat (sint (n::val)) < 2 ^ 31"
proof -
  have "sint n < 2 ^ 31" using sint_val_range [of n] by simp
  then have "nat (sint n) < nat (2 ^ 31)"
    by (subst zless_nat_conj) simp
  then show ?thesis by simp
qed

lemma sum_recursive_cells:
  "nat (sint n) < d \<Longrightarrow> sum_recursive d s arr n = sum_cells s arr (nat (sint n))"
proof (induction d arbitrary: n)
  case 0
  then show ?case by simp
next
  case (Suc d)
  show ?case
  proof (cases "n \<le>s 0")
    case True
    then have "nat (sint n) = 0" by (simp add: word_sle_eq)
    with True show ?thesis by simp
  next
    case False
    then have pos: "0 < sint n" by (simp add: word_sle_eq)
    then have p: "sint (n - 1) = sint n - 1"
      by (intro sint_pred) simp
    define k where "k = nat (sint n - 1)"
    have k: "nat (sint n) = Suc k" "nat (sint (n - 1)) = k"
      using pos p by (simp_all add: k_def)
    have "k < 2 ^ 31" using nat_sint_bound [of n] k by simp
    then have "sint (of_nat k :: val) = sint (n - 1)"
      using p pos by (simp add: sint_of_nat_val k_def)
    then have w: "of_nat k = n - 1"
      by (rule signed_word_eqI)
    have "sum_recursive d s arr (n - 1) = sum_cells s arr k"
      using Suc.prems k Suc.IH [of "n - 1"] by simp
    with False k w show ?thesis by simp
  qed
qed

lemma sum_cells_error:
  "index_read s arr (of_nat j) = Inl e \<Longrightarrow> j < N \<Longrightarrow> sum_cells s arr N = Inl OutOfBounds"
proof (induction N)
  case 0
  then show ?case by simp
next
  case (Suc N)
  show ?case
  proof (cases "j = N")
    case True
    with Suc.prems index_read_error [of s arr "of_nat j" e] show ?thesis by simp
  next
    case False
    with Suc have ih: "sum_cells s arr N = Inl OutOfBounds" by simp
    show ?thesis
    proof (cases "index_read s arr (of_nat N)")
      case (Inl e')
      with index_read_error [of s arr "of_nat N" e'] show ?thesis by simp
    next
      case (Inr a)
      with ih show ?thesis by simp
    qed
  qed
qed

lemma sum_iterative_loop_cells:
  "j \<le> nat (sint n) \<Longrightarrow> sum_cells s arr j = Inr tot \<Longrightarrow>
   sum_iterative_loop s arr n (of_nat j) tot = sum_cells s arr (nat (sint n))"
proof (induction "nat (sint n) - j" arbitrary: j tot)
  case 0
  then have eq: "j = nat (sint n)" by simp
  have "j < 2 ^ 31" using nat_sint_bound [of n] eq by simp
  then have "sint (of_nat j :: val) = int j" by (rule sint_of_nat_val)
  with eq have "\<not> (of_nat j <s n)"
    by (simp add: word_sless_alt)
  with 0 eq show ?case by (subst sum_iterative_loop.simps) simp
next
  case (Suc m)
  then have lt: "j < nat (sint n)" by simp
  then have "j < 2 ^ 31" using nat_sint_bound [of n] by simp
  then have sj: "sint (of_nat j :: val) = int j" by (rule sint_of_nat_val)
  with lt have less: "of_nat j <s n"
    by (simp add: word_sless_alt)
  show ?case
  proof (cases "index_read s arr (of_nat j)")
    case (Inl e)
    with lt have "sum_cells s arr (nat (sint n)) = Inl OutOfBounds"
      by (intro sum_cells_error)
    moreover from Inl have "e = OutOfBounds" by (rule index_read_error)
    ultimately show ?thesis using Inl less
      by (subst sum_iterative_loop.simps) simp
  next
    case (Inr v)
    with Suc.prems have "sum_cells s arr (Suc j) = Inr (tot + v)"
      by (simp add: add.commute)
    moreover have "m = nat (sint n) - Suc j" using Suc.hyps(2) by simp
    ultimately have "sum_iterative_loop s arr n (of_nat (Suc j)) (tot + v)
        = sum_cells s arr (nat (sint n))"
      using lt by (intro Suc.hyps(1)) simp_all
    with Inr less show ?thesis
      by (subst sum_iterative_loop.simps) (simp add: add.commute)
  qed
qed

lemma sum_recursive_iterative:
  "nat (sint n) < d \<Longrightarrow> sum_recursive d s arr n = sum_iterative s arr n"
  using sum_iterative_loop_cells [of 0 n s arr 0]
  by (simp add: sum_recursive_cells sum_iterative_def)

lemma sum_cells_array:
  "k \<le> length xs \<Longrightarrow> k < 2 ^ 31 \<Longrightarrow>
   sum_cells (pre @ xs @ post)
     \<lparr>pbase = length pre, pcount = length xs, paddr = int (length pre)\<rparr> k
   = Inr (sum_list (take k xs))"
proof (induction k)
  case 0
  show ?case by simp
next
  case (Suc k)
  then have "sint (of_nat k :: val) = int k"
    by (intro sint_of_nat_val) simp
  moreover have "(pre @ xs @ post) ! (length pre + k) = xs ! k"
    using Suc.prems by (simp add: nth_append)
  moreover have "nat (int (length pre) + int k) = length pre + k"
    by simp 
  ultimately have "index_read (pre @ xs @ post)
     \<lparr>pbase = length pre, pcount = length xs, paddr = int (length pre)\<rparr> (of_nat k) = Inr (xs ! k)"
    using Suc.prems by (simp add: index_read_def deref_def in_bounds_def ptr_add_def)
  with Suc show ?case
    by (simp add: take_Suc_conv_app_nth add.commute)
qed

text \<open>
  C5. The recursive sum matches its iterative equivalent. On every store, for every
  pointer \<open>arr\<close> and every \<open>n\<close>, \<open>sum_recursive(arr, n)\<close> run on a stack of more than
  \<open>n\<close> records has the result of the iterative summation (value or error). In particular,
  for an array of contents \<open>xs\<close> and \<open>0 \<le> n \<le> length xs\<close>, both return the sum of
  \<open>xs[0..n-1]\<close>; the fixture, with the array 1, 2, 3, 4 and \<open>n = 4\<close>, returns 10.
\<close>

theorem sum_recursive_matches_iterative:
  "(nat (sint n) < d \<longrightarrow> sum_recursive d s arr n = sum_iterative s arr n) \<and>
   (0 \<le> sint n \<and> nat (sint n) \<le> length xs \<and> nat (sint n) < d \<longrightarrow>
      sum_recursive d (pre @ xs @ post)
        \<lparr>pbase = length pre, pcount = length xs, paddr = int (length pre)\<rparr> n
        = Inr (sum_list (take (nat (sint n)) xs)) \<and>
      sum_iterative (pre @ xs @ post)
        \<lparr>pbase = length pre, pcount = length xs, paddr = int (length pre)\<rparr> n
        = Inr (sum_list (take (nat (sint n)) xs))) \<and>
   (6 \<le> d \<longrightarrow> main63 d = Inr 10)"
proof (intro conjI impI)
  assume "nat (sint n) < d"
  then show "sum_recursive d s arr n = sum_iterative s arr n"
    by (rule sum_recursive_iterative)
next
  let ?s = "pre @ xs @ post"
  let ?arr = "\<lparr>pbase = length pre, pcount = length xs, paddr = int (length pre)\<rparr>"
  assume a: "0 \<le> sint n \<and> nat (sint n) \<le> length xs \<and> nat (sint n) < d"
  then have "sum_cells ?s ?arr (nat (sint n)) = Inr (sum_list (take (nat (sint n)) xs))"
    using nat_sint_bound [of n] by (intro sum_cells_array) simp_all
  with a show "sum_recursive d ?s ?arr n = Inr (sum_list (take (nat (sint n)) xs))"
    by (simp add: sum_recursive_cells)
  with a show "sum_iterative ?s ?arr n = Inr (sum_list (take (nat (sint n)) xs))"
    using sum_recursive_iterative [of n d ?s ?arr] by simp
next
  assume "6 \<le> d"
  then obtain k where "d = Suc (Suc (Suc (Suc (Suc (Suc k)))))"
    using depth_6 by blast
  then show "main63 d = Inr 10"
    by (simp add: engine_defs)
qed

theorem sum_recursive_matches_iterative_witness:
  "sum_recursive 5 [1, 2, 3, 4] \<lparr>pbase = 0, pcount = 4, paddr = 0\<rparr> 4 = Inr 10 \<and>
   sum_iterative [1, 2, 3, 4] \<lparr>pbase = 0, pcount = 4, paddr = 0\<rparr> 4 = Inr 10 \<and>
   main63 6 = Inr 10"
proof -
  have len: "length [1, 2, 3, 4 :: val] = 4" "length ([] :: val list) = 0"
    by simp_all
  have sum: "sum_list (take 4 [1, 2, 3, 4 :: val]) = 10"
    by simp
  note inst = sum_recursive_matches_iterative
    [of 4 5 "[1, 2, 3, 4]" "\<lparr>pbase = 0, pcount = 4, paddr = 0\<rparr>" "[1, 2, 3, 4]" "[]" "[]",
     unfolded len]
  from inst sum sum_recursive_matches_iterative [of 4 6] show ?thesis
    by simp
qed

section \<open>Division and remainder\<close>

text \<open>
  On \<open>int\<close>, the division rounded towards zero is characterised by its remainder: smaller
  than the divisor in absolute value, and of the sign of the dividend.
\<close>

lemma abs_sdiv_int: "\<bar>a sdiv b\<bar> = \<bar>a\<bar> div \<bar>b\<bar>" for a b :: int
proof -
  have "0 \<le> \<bar>a\<bar> div \<bar>b\<bar>"
    by (simp add: pos_imp_zdiv_nonneg_iff div_int_pos_iff)
  then show ?thesis
    by (cases "a = 0"; cases "b = 0") (simp_all add: signed_divide_int_def abs_mult abs_sgn_eq)
qed

lemma sdiv_smod_int:
  fixes a b :: int
  assumes "b \<noteq> 0"
  shows "a = (a sdiv b) * b + (a smod b)"
    and "\<bar>a smod b\<bar> < \<bar>b\<bar>"
    and "0 \<le> a \<Longrightarrow> 0 \<le> a smod b"
    and "a \<le> 0 \<Longrightarrow> a smod b \<le> 0"
    and "\<bar>(a sdiv b) * b\<bar> \<le> \<bar>a\<bar>"
proof -
  have pos: "0 \<le> \<bar>a\<bar> mod \<bar>b\<bar>"
    using assms by simp
  show "a = (a sdiv b) * b + (a smod b)"
    by (simp add: sdiv_mult_smod_eq)
  show "\<bar>a smod b\<bar> < \<bar>b\<bar>"
    using assms by (simp add: signed_modulo_int_def abs_mult)
  show "0 \<le> a \<Longrightarrow> 0 \<le> a smod b"
    using pos by (simp add: signed_modulo_int_def sgn_if)
  show "a \<le> 0 \<Longrightarrow> a smod b \<le> 0"
    using pos by (simp add: signed_modulo_int_def sgn_if)
  have "\<bar>(a sdiv b) * b\<bar> = (\<bar>a\<bar> div \<bar>b\<bar>) * \<bar>b\<bar>"
    by (simp add: abs_mult abs_sdiv_int)
  also have "\<dots> = \<bar>a\<bar> - \<bar>a\<bar> mod \<bar>b\<bar>"
    by (simp add: minus_mod_eq_div_mult)
  also have "\<dots> \<le> \<bar>a\<bar>"
    using pos by simp
  finally show "\<bar>(a sdiv b) * b\<bar> \<le> \<bar>a\<bar>" .
qed

lemma sint_smod: "sint (word_of_int (sint (a::val) smod sint (b::val)) :: val) = sint a smod sint b"
proof (cases "sint b = 0")
  case True
  then show ?thesis by simp
next
  case False
  from sdiv_smod_int(2) [OF False, of "sint a"] sint_val_range [of b]
  have "- (2 ^ 31) \<le> sint a smod sint b \<and> sint a smod sint b < 2 ^ 31"
    by (auto simp: abs_if split: if_splits)
  then show ?thesis by (simp add: sint_of_int_val)
qed

lemma sdiv_int_range:
  fixes a b :: int
  assumes "- (2 ^ 31) \<le> a" "a < 2 ^ 31" "\<not> (a = - (2 ^ 31) \<and> b = - 1)"
  shows "- (2 ^ 31) \<le> a sdiv b \<and> a sdiv b < 2 ^ 31"
proof -
  consider "b = 0" | "b = 1" | "b = - 1" | "2 \<le> \<bar>b\<bar>"
    by linarith
  then show ?thesis
  proof cases
    case 1
    then show ?thesis by simp
  next
    case 2
    with assms show ?thesis by simp
  next
    case 3
    with assms show ?thesis by auto
  next
    case 4
    have "\<bar>a\<bar> div \<bar>b\<bar> \<le> \<bar>a\<bar> div 2"
      using 4 by (intro zdiv_mono2) simp_all
    moreover have "\<bar>a sdiv b\<bar> = \<bar>a\<bar> div \<bar>b\<bar>"
      by (rule abs_sdiv_int)
    ultimately show ?thesis using assms(1,2) by (auto simp: abs_if split: if_splits)
  qed
qed

lemma sint_sdiv:
  assumes "\<not> (a = - 2147483648 \<and> b = - 1)"
  shows "sint (word_of_int (sint (a::val) sdiv sint (b::val)) :: val) = sint a sdiv sint b"
proof -
  have "\<not> (sint a = - (2 ^ 31) \<and> sint b = - 1)"
  proof
    assume "sint a = - (2 ^ 31) \<and> sint b = - 1"
    then have "sint a = sint (- 2147483648 :: val)" "sint b = sint (- 1 :: val)"
      by simp_all
    then have "a = - 2147483648 \<and> b = - 1"
      by (auto intro: signed_word_eqI)
    with assms show False by simp
  qed
  with sint_val_range [of a]
  have "- (2 ^ 31) \<le> sint a sdiv sint b \<and> sint a sdiv sint b < 2 ^ 31"
    by (intro sdiv_int_range) simp_all
  then show ?thesis by (simp add: sint_of_int_val)
qed

text \<open>
  C6 (as amended). For every pair of 32-bit values \<open>a\<close> and \<open>b\<close> other than the least
  integer with \<open>-1\<close>: when \<open>b\<close> is zero, \<open>a / b\<close> and \<open>a % b\<close> are \<open>DivisionByZero\<close>;
  when it is not, both are values, the quotient is the exact quotient rounded towards zero
  (\<open>a = (a / b) * b + (a % b)\<close> holds in the integers, and \<open>(a / b) * b\<close> lies between 0
  and \<open>a\<close>), and \<open>a % b\<close> is smaller than \<open>b\<close> in absolute value and of the sign of \<open>a\<close>
  (or zero). Nothing is said of the least integer divided by \<open>-1\<close>.
\<close>

theorem c_div_c_mod_truncating:
  "(b = 0 \<longrightarrow> c_div a b = Inl DivisionByZero \<and> c_mod a b = Inl DivisionByZero) \<and>
   (b \<noteq> 0 \<and> \<not> (a = - 2147483648 \<and> b = - 1) \<longrightarrow>
      (\<exists>q r. c_div a b = Inr q \<and> c_mod a b = Inr r \<and>
         sint a = sint q * sint b + sint r \<and> \<bar>sint q * sint b\<bar> \<le> \<bar>sint a\<bar> \<and>
         \<bar>sint r\<bar> < \<bar>sint b\<bar> \<and> (0 \<le> sint a \<longrightarrow> 0 \<le> sint r) \<and> (sint a \<le> 0 \<longrightarrow> sint r \<le> 0) \<and>
         a = q * b + r))"
proof (intro conjI impI)
  assume "b = 0"
  then show "c_div a b = Inl DivisionByZero" "c_mod a b = Inl DivisionByZero"
    by (simp_all add: c_div_def c_mod_def)
next
  assume a: "b \<noteq> 0 \<and> \<not> (a = - 2147483648 \<and> b = - 1)"
  then have nz: "b \<noteq> 0" and pair: "\<not> (a = - 2147483648 \<and> b = - 1)"
    by simp_all
  from nz have snz: "sint b \<noteq> 0"
    by (simp add: signed_eq_0_iff)
  let ?q = "word_of_int (sint a sdiv sint b) :: val"
  let ?r = "word_of_int (sint a smod sint b) :: val"
  have r: "sint ?r = sint a smod sint b"
    by (rule sint_smod)
  from pair have q: "sint ?q = sint a sdiv sint b"
    by (rule sint_sdiv)
  have "?q * b + ?r
      = word_of_int (sint a sdiv sint b) * word_of_int (sint b) + word_of_int (sint a smod sint b)"
    by simp
  also have "\<dots> = word_of_int (sint a sdiv sint b * sint b + sint a smod sint b)"
    by simp
  also have "\<dots> = a"
    by (simp add: sdiv_mult_smod_eq)
  finally have id: "?q * b + ?r = a" .
  have trunc: "sint a = sint ?q * sint b + sint ?r \<and> \<bar>sint ?q * sint b\<bar> \<le> \<bar>sint a\<bar>"
    unfolding q r using sdiv_smod_int(1,5) [OF snz, of "sint a"] by blast
  have rem: "\<bar>sint ?r\<bar> < \<bar>sint b\<bar> \<and> (0 \<le> sint a \<longrightarrow> 0 \<le> sint ?r) \<and> (sint a \<le> 0 \<longrightarrow> sint ?r \<le> 0)"
    unfolding r using sdiv_smod_int(2,3,4) [OF snz, of "sint a"] by blast
  have "c_div a b = Inr ?q \<and> c_mod a b = Inr ?r"
    using nz by (simp add: c_div_def c_mod_def)
  with id [symmetric] rem trunc
  show "\<exists>q r. c_div a b = Inr q \<and> c_mod a b = Inr r \<and>
         sint a = sint q * sint b + sint r \<and> \<bar>sint q * sint b\<bar> \<le> \<bar>sint a\<bar> \<and>
         \<bar>sint r\<bar> < \<bar>sint b\<bar> \<and> (0 \<le> sint a \<longrightarrow> 0 \<le> sint r) \<and> (sint a \<le> 0 \<longrightarrow> sint r \<le> 0) \<and>
         a = q * b + r"
    by blast
qed

theorem c_div_c_mod_truncating_witness:
  "c_div (- 7) 2 = Inr (- 3) \<and> c_mod (- 7) 2 = Inr (- 1) \<and>
   c_div 7 (- 2) = Inr (- 3) \<and> c_mod 7 (- 2) = Inr 1 \<and>
   c_div 7 0 = Inl DivisionByZero \<and> c_mod 7 0 = Inl DivisionByZero"
  using c_div_c_mod_truncating [of 2 "- 7"] c_div_c_mod_truncating [of "- 2" 7]
    c_div_c_mod_truncating [of 0 7]
  by (simp add: engine_defs)

text \<open>
  The claim as stated, for every pair, cannot hold of 32-bit values: for the least integer
  and \<open>-1\<close> the quotient rounded towards zero is \<open>2^31\<close>, and no 32-bit quotient and
  remainder satisfy \<open>a = q * b + r\<close> with \<open>r\<close> smaller than \<open>b\<close> in absolute value. So
  whatever the engine returns for that pair, it is not what the claim says; the proof does
  not look at what \<open>c_div\<close> and \<open>c_mod\<close> give there.
\<close>

theorem c_div_least_by_minus_one:
  "(\<forall>(q::val) (r::val).
      \<not> (sint (- 2147483648 :: val) = sint q * sint (- 1 :: val) + sint r \<and>
         \<bar>sint r\<bar> < \<bar>sint (- 1 :: val)\<bar>)) \<and>
   \<not> (\<exists>q r. c_div (- 2147483648) (- 1) = Inr q \<and> c_mod (- 2147483648) (- 1) = Inr r \<and>
         sint (- 2147483648 :: val) = sint q * sint (- 1 :: val) + sint r \<and>
         \<bar>sint r\<bar> < \<bar>sint (- 1 :: val)\<bar>)"
proof -
  have none: "\<not> (sint (- 2147483648 :: val) = sint q * sint (- 1 :: val) + sint r \<and>
      \<bar>sint r\<bar> < \<bar>sint (- 1 :: val)\<bar>)" for q r :: val
  proof
    assume a: "sint (- 2147483648 :: val) = sint q * sint (- 1 :: val) + sint r \<and>
      \<bar>sint r\<bar> < \<bar>sint (- 1 :: val)\<bar>"
    then have "sint r = 0"
      by simp
    with a have "sint q = 2147483648"
      by simp
    with sint_val_range [of q] show False
      by simp
  qed
  then have all: "\<forall>(q::val) (r::val).
      \<not> (sint (- 2147483648 :: val) = sint q * sint (- 1 :: val) + sint r \<and>
         \<bar>sint r\<bar> < \<bar>sint (- 1 :: val)\<bar>)"
    by blast
  have "\<not> (\<exists>q r. c_div (- 2147483648) (- 1) = Inr q \<and> c_mod (- 2147483648) (- 1) = Inr r \<and>
      sint (- 2147483648 :: val) = sint q * sint (- 1 :: val) + sint r \<and>
      \<bar>sint r\<bar> < \<bar>sint (- 1 :: val)\<bar>)"
  proof
    assume "\<exists>q r. c_div (- 2147483648) (- 1) = Inr q \<and> c_mod (- 2147483648) (- 1) = Inr r \<and>
      sint (- 2147483648 :: val) = sint q * sint (- 1 :: val) + sint r \<and>
      \<bar>sint r\<bar> < \<bar>sint (- 1 :: val)\<bar>"
    then obtain q r :: val
      where "sint (- 2147483648 :: val) = sint q * sint (- 1 :: val) + sint r \<and>
        \<bar>sint r\<bar> < \<bar>sint (- 1 :: val)\<bar>"
      by (elim exE conjE) (rule that, rule conjI)
    with none [of q r] show False
      by (rule notE)
  qed
  with all show ?thesis
    by (rule conjI)
qed

section \<open>Bounds of array accesses\<close>

text \<open>
  The loop of \<open>sum\<close> in program88, run over a whole array with the pointer one past its
  end as \<open>end\<close>, adds up the cells from \<open>start\<close> on and raises no error: \<open>end\<close> is
  compared with \<open>start\<close> at every turn and never dereferenced.
\<close>

lemma ptr_add_of_nat_Suc:
  "Suc k < 2 ^ 31 \<Longrightarrow> ptr_add (ptr_add p (of_nat k)) 1 = ptr_add p (of_nat (Suc k))"
proof -
  assume a: "Suc k < 2 ^ 31"
  then have "sint (of_nat k :: val) = int k" "sint (of_nat (Suc k) :: val) = int (Suc k)"
    by (simp_all only: sint_of_nat_val Suc_lessD)
  then show ?thesis
    by (simp add: ptr_add_def)
qed

lemma sum_loop_array:
  assumes "length xs < 2 ^ 31" and "k \<le> length xs"
  shows "sum_loop (pre @ xs @ post)
           (ptr_add \<lparr>pbase = length pre, pcount = length xs, paddr = int (length pre)\<rparr>
              (of_nat (length xs)))
           (ptr_add \<lparr>pbase = length pre, pcount = length xs, paddr = int (length pre)\<rparr>
              (of_nat k)) tot
         = Inr (tot + sum_list (drop k xs))"
  using assms(2)
proof (induction "length xs - k" arbitrary: k tot)
  case 0
  then have k: "k = length xs" by simp
  have "sint (of_nat (length xs) :: val) = int (length xs)"
    using assms(1) by (rule sint_of_nat_val)
  then show ?case
    unfolding k by (subst sum_loop.simps) (simp add: ptr_less_def ptr_add_def)
next
  case (Suc m)
  let ?arr = "\<lparr>pbase = length pre, pcount = length xs, paddr = int (length pre)\<rparr>"
  from Suc have lt: "k < length xs" by simp
  with assms(1) have k31: "Suc k < 2 ^ 31" "k < 2 ^ 31" by simp_all
  have sk: "sint (of_nat k :: val) = int k"
    using k31(2) by (rule sint_of_nat_val)
  have sn: "sint (of_nat (length xs) :: val) = int (length xs)"
    using assms(1) by (rule sint_of_nat_val)
  have less: "ptr_less (ptr_add ?arr (of_nat k)) (ptr_add ?arr (of_nat (length xs))) = Inr True"
    using lt sk sn by (simp add: ptr_less_def ptr_add_def)
  have "(pre @ xs @ post) ! (length pre + k) = xs ! k"
    using lt by (simp add: nth_append)
  moreover have "nat (int (length pre) + int k) = length pre + k"
    by simp
  ultimately have rd: "deref (pre @ xs @ post) (ptr_add ?arr (of_nat k)) = Inr (xs ! k)"
    using lt sk by (simp add: deref_def in_bounds_def ptr_add_def)
  have nxt: "ptr_add (ptr_add ?arr (of_nat k)) 1 = ptr_add ?arr (of_nat (Suc k))"
    using k31(1) by (rule ptr_add_of_nat_Suc)
  have "m = length xs - Suc k" using Suc.hyps(2) by simp
  then have ih: "sum_loop (pre @ xs @ post) (ptr_add ?arr (of_nat (length xs)))
        (ptr_add ?arr (of_nat (Suc k))) (tot + xs ! k)
      = Inr (tot + xs ! k + sum_list (drop (Suc k) xs))"
    using lt by (intro Suc.hyps(1)) simp_all
  have "drop k xs = xs ! k # drop (Suc k) xs"
    using lt by (simp add: Cons_nth_drop_Suc)
  with less rd nxt ih show ?case
    by (subst sum_loop.simps) (simp add: add.assoc del: sum_loop.simps)
qed

text \<open>
  C7. Reading or writing \<open>p[i]\<close>, or dereferencing \<open>p + i\<close>, where the index falls
  outside the \<open>[base, base + count)\<close> of the pointer's array is \<open>OutOfBounds\<close>, never a
  value; so it is for an array just declared with \<open>N\<close> cells and every index that is
  negative or at least \<open>N\<close> (one past the end included), while an index from 0 to
  \<open>N - 1\<close> reads the cell. Forming \<open>p + i\<close> raises nothing (\<open>ptr_add\<close> has no error
  result), and comparing two pointers into the same array is never an error: \<open>sum\<close>
  called on an array and the pointer one past its end returns the sum of the cells, and in
  the fixture \<open>numbers + 3\<close> is compared with \<open>numbers\<close> and with itself, while
  dereferencing it would fail.
\<close>

theorem out_of_bounds_detected:
  "(paddr p + sint i < int (pbase p) \<or> int (pbase p) + int (pcount p) \<le> paddr p + sint i \<longrightarrow>
      index_read s p i = Inl OutOfBounds \<and> index_write s p i v = Inl OutOfBounds \<and>
      deref s (ptr_add p i) = Inl OutOfBounds) \<and>
   (case alloc s N of (s', arr) \<Rightarrow>
      (sint i < 0 \<or> int N \<le> sint i \<longrightarrow>
         index_read s' arr i = Inl OutOfBounds \<and> index_write s' arr i v = Inl OutOfBounds) \<and>
      (0 \<le> sint i \<and> sint i < int N \<longrightarrow> index_read s' arr i = Inr 0)) \<and>
   ptr_less (ptr_add p i) (ptr_add p j) = Inr (sint i < sint j) \<and>
   (length xs < 2 ^ 31 \<and> 0 < d \<longrightarrow>
      sum_c d (pre @ xs @ post)
        \<lparr>pbase = length pre, pcount = length xs, paddr = int (length pre)\<rparr>
        (ptr_add \<lparr>pbase = length pre, pcount = length xs, paddr = int (length pre)\<rparr>
           (of_nat (length xs)))
      = Inr (sum_list xs)) \<and>
   (case alloc [] 3 of (s', numbers) \<Rightarrow>
      ptr_less numbers (ptr_add numbers 3) = Inr True \<and>
      ptr_less (ptr_add numbers 3) (ptr_add numbers 3) = Inr False \<and>
      deref s' (ptr_add numbers 3) = Inl OutOfBounds \<and>
      index_read s' numbers 3 = Inl OutOfBounds)"
proof (intro conjI)
  show "paddr p + sint i < int (pbase p) \<or> int (pbase p) + int (pcount p) \<le> paddr p + sint i \<longrightarrow>
      index_read s p i = Inl OutOfBounds \<and> index_write s p i v = Inl OutOfBounds \<and>
      deref s (ptr_add p i) = Inl OutOfBounds"
    by (auto simp: index_read_def index_write_def deref_def in_bounds_def ptr_add_def)
  show "case alloc s N of (s', arr) \<Rightarrow>
      (sint i < 0 \<or> int N \<le> sint i \<longrightarrow>
         index_read s' arr i = Inl OutOfBounds \<and> index_write s' arr i v = Inl OutOfBounds) \<and>
      (0 \<le> sint i \<and> sint i < int N \<longrightarrow> index_read s' arr i = Inr 0)"
    by (auto simp: alloc_def index_read_def index_write_def deref_def in_bounds_def ptr_add_def
        nth_append nat_add_distrib nat_less_iff)
  show "ptr_less (ptr_add p i) (ptr_add p j) = Inr (sint i < sint j)"
    by (simp add: ptr_less_def ptr_add_def)
  show "length xs < 2 ^ 31 \<and> 0 < d \<longrightarrow>
      sum_c d (pre @ xs @ post)
        \<lparr>pbase = length pre, pcount = length xs, paddr = int (length pre)\<rparr>
        (ptr_add \<lparr>pbase = length pre, pcount = length xs, paddr = int (length pre)\<rparr>
           (of_nat (length xs)))
      = Inr (sum_list xs)"
  proof
    let ?arr = "\<lparr>pbase = length pre, pcount = length xs, paddr = int (length pre)\<rparr>"
    assume a: "length xs < 2 ^ 31 \<and> 0 < d"
    then obtain d' where d: "d = Suc d'"
      by (cases d) simp_all
    have "ptr_add ?arr (of_nat 0) = ?arr"
      by (simp add: ptr_add_def)
    with a sum_loop_array [of xs 0 pre post 0]
    have "sum_loop (pre @ xs @ post) (ptr_add ?arr (of_nat (length xs))) ?arr 0
        = Inr (sum_list xs)"
      by (simp del: sum_loop.simps)
    with d show "sum_c d (pre @ xs @ post) ?arr (ptr_add ?arr (of_nat (length xs)))
        = Inr (sum_list xs)"
      by (simp del: sum_loop.simps)
  qed
  show "case alloc [] 3 of (s', numbers) \<Rightarrow>
      ptr_less numbers (ptr_add numbers 3) = Inr True \<and>
      ptr_less (ptr_add numbers 3) (ptr_add numbers 3) = Inr False \<and>
      deref s' (ptr_add numbers 3) = Inl OutOfBounds \<and>
      index_read s' numbers 3 = Inl OutOfBounds"
    by (simp add: engine_defs)
qed

theorem out_of_bounds_detected_witness:
  "index_read [10, 20, 30] \<lparr>pbase = 0, pcount = 3, paddr = 0\<rparr> 3 = Inl OutOfBounds \<and>
   index_write [10, 20, 30] \<lparr>pbase = 0, pcount = 3, paddr = 0\<rparr> (- 1) 7 = Inl OutOfBounds \<and>
   index_read (fst (alloc [] 3)) (snd (alloc [] 3)) 2 = Inr 0 \<and>
   sum_c 1 [2, 4, 6] \<lparr>pbase = 0, pcount = 3, paddr = 0\<rparr>
     (ptr_add \<lparr>pbase = 0, pcount = 3, paddr = 0\<rparr> 3) = Inr 12"
proof -
  have len: "length [2, 4, 6 :: val] = 3" "length ([] :: val list) = 0"
    by simp_all
  note inst = out_of_bounds_detected
    [of "\<lparr>pbase = 0, pcount = 3, paddr = 0\<rparr>" 2 "[]" 7 3 0 "[2, 4, 6]" 1 "[]" "[]",
     unfolded len]
  from inst
    out_of_bounds_detected [of "\<lparr>pbase = 0, pcount = 3, paddr = 0\<rparr>" 3 "[10, 20, 30]" 7 0 0 "[]" 0]
    out_of_bounds_detected [of "\<lparr>pbase = 0, pcount = 3, paddr = 0\<rparr>" "- 1" "[10, 20, 30]" 7 0 0 "[]" 0]
  show ?thesis
    by (simp add: engine_defs del: sum_loop.simps)
qed

section \<open>Termination of the recursive functions\<close>

subsection \<open>power\<close>

text \<open>
  The recursion of \<open>power\<close> counts its exponent down to 0 in 32-bit arithmetic, so it
  makes \<open>unat exp\<close> recursive calls: \<open>exp\<close> itself when \<open>exp\<close> is not negative, and
  \<open>2^32 + exp\<close> when it is (below the least integer, \<open>exp - 1\<close> wraps around to the
  greatest one).
\<close>

lemma power_c_depth:
  "power_c d b e = (if unat e < d then Inr (b ^ unat e) else Inl StackOverflow)"
proof (induction d arbitrary: e)
  case 0
  show ?case by simp
next
  case (Suc d)
  show ?case
  proof (cases "e = 0")
    case True
    then show ?thesis by simp
  next
    case False
    then have "unat e = Suc (unat (e - 1))"
      by (metis Suc_pred' unat_minus_one unat_gt_0)
    with False Suc [of "e - 1"] show ?thesis
      by simp
  qed
qed

lemma unat_sint_val:
  "int (unat (e::val)) = (if 0 \<le> sint e then sint e else 2 ^ 32 + sint e)"
proof -
  have "uint e = sint e mod 2 ^ 32"
    using uint_sint [of e] by (simp add: take_bit_eq_mod)
  moreover have "- (2 ^ 31) \<le> sint e \<and> sint e < 2 ^ 31"
    by (rule sint_val_range)
  moreover have "sint e mod 2 ^ 32 = (2 ^ 32 + sint e) mod 2 ^ 32"
    by simp
  ultimately have "uint e = (if 0 \<le> sint e then sint e else 2 ^ 32 + sint e)"
    by (auto simp: mod_pos_pos_trivial simp del: mod_add_self1)
  then show ?thesis by simp
qed

text \<open>
  C9 (as amended). \<open>power(base, exp)\<close> reaches its base case for every exponent: on a
  stack that admits more than \<open>unat exp\<close> records it returns \<open>base\<close> raised to
  \<open>unat exp\<close> in 32-bit arithmetic, and on a smaller stack the run ends in
  \<open>StackOverflow\<close>. For \<open>exp \<ge> 0\<close> the number of recursive calls is \<open>exp\<close>; for
  \<open>exp < 0\<close> it is \<open>2^32 + exp\<close>, at least \<open>2^31\<close>.
\<close>

theorem power_c_terminates:
  "power_c d b e = (if unat e < d then Inr (b ^ unat e) else Inl StackOverflow) \<and>
   (0 \<le>s e \<longrightarrow> unat e = nat (sint e)) \<and>
   (e <s 0 \<longrightarrow> unat e = nat (2 ^ 32 + sint e) \<and> 2 ^ 31 \<le> unat e)"
proof (intro conjI impI)
  show "power_c d b e = (if unat e < d then Inr (b ^ unat e) else Inl StackOverflow)"
    by (rule power_c_depth)
next
  assume "0 \<le>s e"
  then have "0 \<le> sint e"
    by (simp add: word_sle_eq)
  with unat_sint_val [of e] have "nat (uint e) = nat (sint e)"
    by simp
  then show "unat e = nat (sint e)"
    by simp
next
  assume "e <s 0"
  then have neg: "sint e < 0"
    by (simp add: word_sless_alt)
  with unat_sint_val [of e] have u: "uint e = 2 ^ 32 + sint e"
    by simp
  then have "nat (uint e) = nat (2 ^ 32 + sint e)"
    by simp
  then show "unat e = nat (2 ^ 32 + sint e)"
    by simp
  from u sint_val_range [of e] have "nat (2 ^ 31) \<le> nat (uint e)"
    by (intro nat_mono) simp
  then show "2 ^ 31 \<le> unat e"
    by simp
qed

theorem power_c_terminates_witness:
  "(0::val) \<le>s 4 \<and> power_c 6 2 4 = Inr 16 \<and> unat (4::val) = 4 \<and>
   (- 1 :: val) <s 0 \<and> power_c 6 2 (- 1) = Inl StackOverflow \<and> 2 ^ 31 \<le> unat (- 1 :: val)"
  using power_c_terminates [of 6 2 4] power_c_terminates [of 6 2 "- 1"]
  by (simp add: word_sle_eq word_sless_alt)

text \<open>
  The claim as stated fails: with exponent \<open>-1\<close> the recursion passes \<open>-2\<close>, \<open>-3\<close>, ...
  down to the least integer, wraps around to the greatest one and counts down to 0. On a
  stack of \<open>2^32\<close> records \<open>power(1, -1)\<close> returns 1.
\<close>

theorem power_c_negative_exponent_returns:
  "(- 1 :: val) <s 0 \<and> power_c 4294967296 1 (- 1) = Inr 1"
  by (simp add: power_c_depth unsigned_minus_1_eq_mask mask_eq_exp_minus_1 word_sless_alt)

subsection \<open>binary\_search\_recursive\<close>

lemma sdiv_2_between:
  fixes l r :: int
  assumes "l \<le> r"
  shows "l \<le> (l + r) sdiv 2 \<and> (l + r) sdiv 2 \<le> r"
  using assms by (auto simp: signed_divide_int_def sgn_if abs_if)

text \<open>
  Where \<open>left + right\<close> stays within 32 bits, the midpoint lies between the two ends.
\<close>

lemma midpoint_no_overflow:
  assumes "left \<le>s right"
    and "- (2 ^ 31) \<le> sint left + sint right" and "sint left + sint right < 2 ^ 31"
  shows "\<exists>mid. c_div (left + right) 2 = Inr mid \<and> sint mid = (sint left + sint right) sdiv 2
           \<and> left \<le>s mid \<and> mid \<le>s right"
proof -
  let ?x = "sint left + sint right"
  have lr: "sint left \<le> sint right"
    using assms(1) by (simp add: word_sle_eq)
  have sum: "sint (left + right) = ?x"
    using assms(2,3) by (rule sint_add_in_range)
  have btw: "sint left \<le> ?x sdiv 2 \<and> ?x sdiv 2 \<le> sint right"
    using lr by (rule sdiv_2_between)
  with sint_val_range [of left] sint_val_range [of right]
  have "sint (word_of_int (?x sdiv 2) :: val) = ?x sdiv 2"
    by (intro sint_of_int_val) linarith+
  with btw sum show ?thesis
    by (simp add: c_div_def word_sle_eq)
qed

text \<open>
  With both ends in \<open>[-2^30, 2^30)\<close> no sum of the run overflows, the interval shrinks at
  every call, and \<open>right - left + 2\<close> records are enough.
\<close>

lemma bsr_no_overflow:
  "right <s left \<or> (- (2 ^ 30) \<le> sint left \<and> sint right < 2 ^ 30) \<Longrightarrow>
   nat (sint right - sint left + 1) < d \<Longrightarrow>
   (\<exists>v. binary_search_recursive d s arr left right key = Inr v) \<or>
   binary_search_recursive d s arr left right key = Inl OutOfBounds"
proof (induction d arbitrary: left right)
  case 0
  then show ?case by simp
next
  case (Suc d)
  show ?case
  proof (cases "right <s left")
    case True
    then show ?thesis by simp
  next
    case False
    then have le: "left \<le>s right"
      by (simp add: word_sle_eq word_sless_alt)
    with Suc.prems(1) False have rng: "- (2 ^ 30) \<le> sint left" "sint right < 2 ^ 30"
      by auto
    have lr: "sint left \<le> sint right"
      using le by (simp add: word_sle_eq)
    from midpoint_no_overflow [OF le] rng lr
    obtain mid where mid: "c_div (left + right) 2 = Inr mid"
      and smid: "sint left \<le> sint mid" "sint mid \<le> sint right"
      by (auto simp: word_sle_eq)
    show ?thesis
    proof (cases "index_read s arr mid")
      case (Inl e)
      then have "e = OutOfBounds" by (rule index_read_error)
      with Inl mid False show ?thesis by simp
    next
      case (Inr v)
      have p: "sint (mid - 1) = sint mid - 1"
        using smid rng by (intro sint_pred) simp
      have q: "sint (mid + 1) = sint mid + 1"
        using smid rng by (intro sint_succ_below_max) simp
      have L: "(\<exists>v. binary_search_recursive d s arr left (mid - 1) key = Inr v) \<or>
               binary_search_recursive d s arr left (mid - 1) key = Inl OutOfBounds"
        using Suc.prems(2) smid rng p lr
        by (intro Suc.IH) (auto simp: word_sless_alt)
      have R: "(\<exists>v. binary_search_recursive d s arr (mid + 1) right key = Inr v) \<or>
               binary_search_recursive d s arr (mid + 1) right key = Inl OutOfBounds"
        using Suc.prems(2) smid rng q lr
        by (intro Suc.IH) (auto simp: word_sless_alt)
      from Inr mid False L R show ?thesis
        by auto
    qed
  qed
qed

text \<open>
  With an array \<open>arr\<close> whose in-bounds indices are not negative (an array passed by its
  name, or a pointer to its first cell), the recursion ends for every \<open>left\<close> and
  \<open>right\<close>, overflowing sums included: \<open>bsr_depth\<close> decreases at every call.
\<close>

lemma signed_take_bit_31_shift:
  "signed_take_bit 31 (k + 2 ^ 32) = signed_take_bit 31 (k::int)"
proof -
  have "(k + 2 ^ 31 + 2 ^ 32) mod 2 ^ 32 = (k + 2 ^ 31) mod 2 ^ 32"
    by (rule mod_add_self2)
  moreover have "k + 2 ^ 32 + 2 ^ 31 = k + 2 ^ 31 + (2 ^ 32 :: int)"
    by simp
  ultimately have "(k + 2 ^ 32 + 2 ^ 31) mod 2 ^ 32 = (k + 2 ^ 31) mod 2 ^ 32"
    by (simp only:)
  then have "take_bit (Suc 31) (k + 2 ^ 32 + 2 ^ 31) = take_bit (Suc 31) (k + 2 ^ 31)"
    by (simp only: take_bit_eq_mod power_Suc [symmetric]) simp
  then show ?thesis
    by (simp only: signed_take_bit_eq_take_bit_shift)
qed

lemma sint_add_wrap:
  "sint ((a::val) + b) =
     (if sint a + sint b < - (2 ^ 31) then sint a + sint b + 2 ^ 32
      else if 2 ^ 31 \<le> sint a + sint b then sint a + sint b - 2 ^ 32
      else sint a + sint b)"
proof -
  let ?k = "sint a + sint b"
  have rng: "- (2 ^ 32) \<le> ?k \<and> ?k < 2 ^ 32"
    using sint_val_range [of a] sint_val_range [of b] by simp
  have s: "sint (a + b) = signed_take_bit 31 ?k"
    by (simp add: sint_word_ariths)
  show ?thesis
  proof (cases "?k < - (2 ^ 31)")
    case True
    have "signed_take_bit 31 ?k = signed_take_bit 31 (?k + 2 ^ 32)"
      by (rule signed_take_bit_31_shift [symmetric])
    also from True rng have "\<dots> = ?k + 2 ^ 32"
      by (intro signed_take_bit_int_eq_self) simp_all
    finally show ?thesis
      using True s by simp
  next
    case False
    show ?thesis
    proof (cases "2 ^ 31 \<le> ?k")
      case True
      have "signed_take_bit 31 ?k = signed_take_bit 31 (?k - 2 ^ 32 + 2 ^ 32)"
        by simp
      also have "\<dots> = signed_take_bit 31 (?k - 2 ^ 32)"
        by (rule signed_take_bit_31_shift)
      also from True rng have "\<dots> = ?k - 2 ^ 32"
        by (intro signed_take_bit_int_eq_self) simp_all
      finally show ?thesis
        using True False s by simp
    next
      case ge: False
      with False have "signed_take_bit 31 ?k = ?k"
        by (intro signed_take_bit_int_eq_self) simp_all
      with False ge s show ?thesis by simp
    qed
  qed
qed

lemma sdiv_2_cases:
  fixes x :: int
  shows "(x \<le> - 2 \<longrightarrow> x sdiv 2 \<le> - 1) \<and>
         (- 1 \<le> x \<longrightarrow> 0 \<le> x sdiv 2 \<and> 2 * (x sdiv 2) \<le> x + 1 \<and> x \<le> 2 * (x sdiv 2) + 1)"
  by (auto simp: signed_divide_int_def sgn_if abs_if)

lemma c_div_2:
  "\<exists>mid. c_div x 2 = Inr mid \<and> sint mid = sint x sdiv 2"
proof -
  have "sint (word_of_int (sint x sdiv sint (2::val)) :: val) = sint x sdiv sint (2::val)"
    by (rule sint_sdiv) simp
  then show ?thesis by (simp add: c_div_def)
qed

lemma index_read_nonneg:
  "paddr arr \<le> int (pbase arr) \<Longrightarrow> index_read s arr i = Inr v \<Longrightarrow> 0 \<le> sint i"
  by (auto simp: index_read_def deref_def in_bounds_def ptr_add_def split: if_splits)

lemma bsr_depth_left:
  fixes L R M x :: int
  assumes "L \<le> R" "- (2 ^ 31) \<le> L" "R < 2 ^ 31" "0 \<le> M"
    and "x = (if L + R < - (2 ^ 31) then L + R + 2 ^ 32
              else if 2 ^ 31 \<le> L + R then L + R - 2 ^ 32 else L + R)"
    and "2 * M \<le> x + 1" "x \<le> 2 * M + 1" "- 1 \<le> x"
  shows "bsr_depth L (M - 1) < bsr_depth L R \<and> bsr_depth (M + 1) R < bsr_depth L R"
  using assms unfolding bsr_depth_def
  by (auto split: if_splits)

lemma bsr_nonneg_index:
  "paddr arr \<le> int (pbase arr) \<Longrightarrow> bsr_depth (sint left) (sint right) < d \<Longrightarrow>
   (\<exists>v. binary_search_recursive d s arr left right key = Inr v) \<or>
   binary_search_recursive d s arr left right key = Inl OutOfBounds"
proof (induction d arbitrary: left right)
  case 0
  then show ?case by simp
next
  case (Suc d)
  show ?case
  proof (cases "right <s left")
    case True
    then show ?thesis by simp
  next
    case False
    then have lr: "sint left \<le> sint right"
      by (simp add: word_sless_alt)
    obtain mid where mid: "c_div (left + right) 2 = Inr mid"
      and smid: "sint mid = sint (left + right) sdiv 2"
      using c_div_2 [of "left + right"] by blast
    show ?thesis
    proof (cases "index_read s arr mid")
      case (Inl e)
      then have "e = OutOfBounds" by (rule index_read_error)
      with Inl mid False show ?thesis by simp
    next
      case (Inr v)
      with Suc.prems(1) have nonneg: "0 \<le> sint mid"
        by (rule index_read_nonneg)
      let ?x = "sint (left + right)"
      from nonneg smid sdiv_2_cases [of ?x]
      have x: "- 1 \<le> ?x" "2 * sint mid \<le> ?x + 1" "?x \<le> 2 * sint mid + 1"
        by auto
      from x sint_val_range [of "left + right"] have "sint mid < 2 ^ 31 - 1"
        by simp
      with nonneg have p: "sint (mid - 1) = sint mid - 1" and q: "sint (mid + 1) = sint mid + 1"
        by (simp_all add: sint_pred sint_succ_below_max)
      have dec: "bsr_depth (sint left) (sint mid - 1) < bsr_depth (sint left) (sint right) \<and>
          bsr_depth (sint mid + 1) (sint right) < bsr_depth (sint left) (sint right)"
        using lr sint_val_range [of left] sint_val_range [of right] nonneg
          sint_add_wrap [of left right] x
        by (intro bsr_depth_left [where x = ?x]) simp_all
      have L: "(\<exists>v. binary_search_recursive d s arr left (mid - 1) key = Inr v) \<or>
               binary_search_recursive d s arr left (mid - 1) key = Inl OutOfBounds"
        using Suc.prems dec p by (intro Suc.IH) simp_all
      have R: "(\<exists>v. binary_search_recursive d s arr (mid + 1) right key = Inr v) \<or>
               binary_search_recursive d s arr (mid + 1) right key = Inl OutOfBounds"
        using Suc.prems dec q by (intro Suc.IH) simp_all
      from Inr mid False L R show ?thesis
        by auto
    qed
  qed
qed

text \<open>
  C10 (as amended). \<open>binary_search_recursive\<close> ends, with a value or with the
  \<open>OutOfBounds\<close> error of \<open>arr[mid]\<close>, for every \<open>left\<close>, \<open>right\<close> and key when
  \<open>arr\<close> is an array or points to the first cell of one, on a stack of more than
  \<open>bsr_depth left right\<close> records; and for every pointer \<open>arr\<close> whenever
  \<open>left > right\<close> or both ends lie in \<open>[-2^30, 2^30)\<close>, on a stack of more than
  \<open>right - left + 1\<close> records. Whenever \<open>left \<le> right\<close> and \<open>left + right\<close> does not
  overflow, the midpoint satisfies \<open>left \<le> mid \<le> right\<close> and both recursive calls get a
  strictly narrower interval.
\<close>

theorem binary_search_recursive_terminates:
  "(paddr arr \<le> int (pbase arr) \<and> bsr_depth (sint left) (sint right) < d \<longrightarrow>
      (\<exists>v. binary_search_recursive d s arr left right key = Inr v) \<or>
      binary_search_recursive d s arr left right key = Inl OutOfBounds) \<and>
   ((right <s left \<or> (- (2 ^ 30) \<le> sint left \<and> sint right < 2 ^ 30)) \<and>
    nat (sint right - sint left + 1) < d \<longrightarrow>
      (\<exists>v. binary_search_recursive d s arr left right key = Inr v) \<or>
      binary_search_recursive d s arr left right key = Inl OutOfBounds) \<and>
   (left \<le>s right \<and> - (2 ^ 31) \<le> sint left + sint right \<and> sint left + sint right < 2 ^ 31 \<longrightarrow>
      (\<exists>mid. c_div (left + right) 2 = Inr mid \<and> left \<le>s mid \<and> mid \<le>s right \<and>
         sint (mid - 1) - sint left < sint right - sint left \<and>
         sint right - sint (mid + 1) < sint right - sint left))"
proof (intro conjI impI)
  assume "paddr arr \<le> int (pbase arr) \<and> bsr_depth (sint left) (sint right) < d"
  then show "(\<exists>v. binary_search_recursive d s arr left right key = Inr v) \<or>
      binary_search_recursive d s arr left right key = Inl OutOfBounds"
    using bsr_nonneg_index [of arr left right d s key] by blast
next
  assume "(right <s left \<or> (- (2 ^ 30) \<le> sint left \<and> sint right < 2 ^ 30)) \<and>
    nat (sint right - sint left + 1) < d"
  then show "(\<exists>v. binary_search_recursive d s arr left right key = Inr v) \<or>
      binary_search_recursive d s arr left right key = Inl OutOfBounds"
    using bsr_no_overflow [of right left d s arr key] by blast
next
  assume a: "left \<le>s right \<and> - (2 ^ 31) \<le> sint left + sint right \<and>
    sint left + sint right < 2 ^ 31"
  then obtain mid where mid: "c_div (left + right) 2 = Inr mid"
    and smid: "sint mid = (sint left + sint right) sdiv 2"
    and btw: "left \<le>s mid" "mid \<le>s right"
    using midpoint_no_overflow [of left right] by blast
  from a smid have "- (2 ^ 30) \<le> sint mid \<and> sint mid < 2 ^ 30"
    by (auto simp: signed_divide_int_def sgn_if abs_if)
  then have "sint (mid - 1) = sint mid - 1" and "sint (mid + 1) = sint mid + 1"
    by (simp_all add: sint_pred sint_succ_below_max)
  with btw have "sint (mid - 1) - sint left < sint right - sint left \<and>
      sint right - sint (mid + 1) < sint right - sint left"
    by (simp add: word_sle_eq)
  with mid btw show "\<exists>mid. c_div (left + right) 2 = Inr mid \<and> left \<le>s mid \<and> mid \<le>s right \<and>
      sint (mid - 1) - sint left < sint right - sint left \<and>
      sint right - sint (mid + 1) < sint right - sint left"
    by blast
qed

theorem binary_search_recursive_terminates_witness:
  "((\<exists>v. binary_search_recursive 6 [1, 3, 5, 7, 9] \<lparr>pbase = 0, pcount = 5, paddr = 0\<rparr> 0 4 6 = Inr v) \<or>
    binary_search_recursive 6 [1, 3, 5, 7, 9] \<lparr>pbase = 0, pcount = 5, paddr = 0\<rparr> 0 4 6
      = Inl OutOfBounds) \<and>
   ((\<exists>v. binary_search_recursive 4 [1, 3, 5, 7, 9] \<lparr>pbase = 0, pcount = 5, paddr = 0\<rparr>
       (- 2147483648) (- 1) 6 = Inr v) \<or>
    binary_search_recursive 4 [1, 3, 5, 7, 9] \<lparr>pbase = 0, pcount = 5, paddr = 0\<rparr>
       (- 2147483648) (- 1) 6 = Inl OutOfBounds) \<and>
   (\<exists>mid. c_div (0 + 4) 2 = Inr mid \<and> 0 \<le>s mid \<and> mid \<le>s 4 \<and>
      sint (mid - 1) - sint (0::val) < sint (4::val) - sint (0::val) \<and>
      sint (4::val) - sint (mid + 1) < sint (4::val) - sint (0::val))"
  using binary_search_recursive_terminates
    [of "\<lparr>pbase = 0, pcount = 5, paddr = 0\<rparr>" 0 4 6 "[1, 3, 5, 7, 9]" 6]
    binary_search_recursive_terminates
    [of "\<lparr>pbase = 0, pcount = 5, paddr = 0\<rparr>" "- 2147483648" "- 1" 4 "[1, 3, 5, 7, 9]" 6]
  by (simp add: word_sle_eq bsr_depth_def)

text \<open>
  The claim as stated fails where \<open>left + right\<close> overflows. At
  \<open>left = right = 2147483647\<close> the sum wraps around to \<open>-2\<close> and the midpoint is \<open>-1\<close>,
  below \<open>left\<close>. And the recursion need not end: take an array of 1431655766 cells, all 0,
  pass the pointer to its cell 715827882 as \<open>arr\<close>, and search the key 1 from
  \<open>left = -715827881\<close> to \<open>right = 2147483647\<close>. The midpoint is 715827883, the cell there
  is smaller than the key, and the next call has \<open>left = 715827884\<close>; now the sum overflows,
  the midpoint is \<open>-715827882\<close>, a cell of the array again, and the call after that has
  \<open>left = -715827881\<close> as at the start. Every stack overflows.
\<close>

theorem binary_search_recursive_overflow:
  "(2147483647 :: val) \<le>s 2147483647 \<and>
   c_div (2147483647 + 2147483647) 2 = Inr (- 1) \<and> (- 1 :: val) <s 2147483647 \<and>
   (\<forall>d. binary_search_recursive d (fst (alloc [] 1431655766))
          (ptr_add (snd (alloc [] 1431655766)) 715827882) (- 715827881) 2147483647 1
        = Inl StackOverflow)"
proof -
  have cycle: "binary_search_recursive d (fst (alloc [] 1431655766))
        (ptr_add (snd (alloc [] 1431655766)) 715827882) (- 715827881) 2147483647 1
        = Inl StackOverflow \<and>
      binary_search_recursive d (fst (alloc [] 1431655766))
        (ptr_add (snd (alloc [] 1431655766)) 715827882) 715827884 2147483647 1
        = Inl StackOverflow" for d
  proof (induction d)
    case 0
    show ?case by simp
  next
    case (Suc d)
    then show ?case
      by (simp add: engine_defs)
  qed
  then show ?thesis
    by (simp add: engine_defs)
qed

end
